theory Spec2Isabelle
  imports Complex_Main "HOL-Library.Finite_Map" "HOL-Library.Char_ord" "HOL-Library.List_Lexorder"
begin

section \<open>Topology model (package business, Graph)\<close>

text \<open>
  A Go \<^verbatim>\<open>map[string]T\<close> is a finite map; it is modelled by \<^typ>\<open>(string, 'a) fmap\<close>.
  The field \<^verbatim>\<open>Edges\<close> of a \<^verbatim>\<open>Graph\<close> may be the nil map, which is \<open>None\<close> here.
  Node identifiers are Go strings, modelled by \<^typ>\<open>string\<close>.
\<close>

record Graph =
  Nodes :: "string list"
  Edges :: "(string, string list) fmap option"

text \<open>Reading a Go map at a missing key gives the zero value, for a slice the empty one.\<close>

definition adj :: "(string, string list) fmap \<Rightarrow> string \<Rightarrow> string list" where
  "adj m v = (case fmlookup m v of None \<Rightarrow> [] | Some ns \<Rightarrow> ns)"

text \<open>The first loop of \<^verbatim>\<open>NewGraph\<close>: \<^verbatim>\<open>nodeSet[n] = struct{}{}\<close> for every node.\<close>

definition nodeSet_of :: "string list \<Rightarrow> string set" where
  "nodeSet_of nodes = fold insert nodes {}"

text \<open>The second loop: \<^verbatim>\<open>graph.Edges[n] = []string{}\<close> for every node.\<close>

definition init_edges :: "string list \<Rightarrow> (string, string list) fmap" where
  "init_edges nodes = fold (\<lambda>n m. fmupd n [] m) nodes fmempty"

text \<open>
  The third loop, over the raw edges. An edge is a slice of strings of any length; the
  two indexings \<^verbatim>\<open>edge[0], edge[1]\<close> happen only after the length test, so they cannot panic.
\<close>

fun add_edges ::
  "string set \<Rightarrow> string list list \<Rightarrow> (string, string list) fmap \<Rightarrow> (string, string list) fmap"
where
  "add_edges nodeSet [] m = m"
| "add_edges nodeSet (edge # rest) m =
     (if length edge \<noteq> 2 then add_edges nodeSet rest m
      else if edge ! 0 \<notin> nodeSet then add_edges nodeSet rest m
      else if edge ! 1 \<notin> nodeSet then add_edges nodeSet rest m
      else add_edges nodeSet rest
             (fmupd (edge ! 1)
                (adj (fmupd (edge ! 0) (adj m (edge ! 0) @ [edge ! 1]) m) (edge ! 1) @ [edge ! 0])
                (fmupd (edge ! 0) (adj m (edge ! 0) @ [edge ! 1]) m)))"

definition NewGraph :: "string list \<Rightarrow> string list list \<Rightarrow> Graph" where
  "NewGraph nodes edges =
     \<lparr>Nodes = nodes, Edges = Some (add_edges (nodeSet_of nodes) edges (init_edges nodes))\<rparr>"

definition HasNode :: "Graph \<Rightarrow> string \<Rightarrow> bool" where
  "HasNode g node =
     (case Edges g of
        None \<Rightarrow> False
      | Some m \<Rightarrow> (case fmlookup m node of None \<Rightarrow> False | Some _ \<Rightarrow> True))"

section \<open>Component finder (computeIslands)\<close>

text \<open>\<^verbatim>\<open>g.Edges[v]\<close>: reading the nil map gives the empty slice as well.\<close>

definition neighbours :: "Graph \<Rightarrow> string \<Rightarrow> string list" where
  "neighbours g v = (case Edges g of None \<Rightarrow> [] | Some m \<Rightarrow> adj m v)"

text \<open>Every identifier that occurs in some neighbour list; a finite set, used as a bound.\<close>

definition all_neighbours :: "Graph \<Rightarrow> string set" where
  "all_neighbours g = (case Edges g of None \<Rightarrow> {} | Some m \<Rightarrow> \<Union> (set ` fmran' m))"

text \<open>
  The inner loop \<^verbatim>\<open>for len(stack) > 0\<close>. The stack is a slice whose top is its last
  element; \<^verbatim>\<open>visited\<close> is a \<^verbatim>\<open>map[string]bool\<close> holding only \<^verbatim>\<open>true\<close>, that is a set.
  The innermost loop pushes the neighbours that are unvisited once \<open>v\<close> is marked.
\<close>

function dfs :: "Graph \<Rightarrow> string set \<Rightarrow> string list \<Rightarrow> string list \<Rightarrow> string set \<times> string list" where
  "dfs g visited stack island =
     (if stack = [] then (visited, island)
      else if last stack \<in> visited then dfs g visited (butlast stack) island
      else dfs g (insert (last stack) visited)
             (butlast stack @
                filter (\<lambda>nei. nei \<notin> insert (last stack) visited) (neighbours g (last stack)))
             (island @ [last stack]))"
  by pat_completeness auto
termination
proof (relation "inv_image (less_than <*lex*> less_than)
         (\<lambda>(g, visited, stack, island).
            (card ((all_neighbours g \<union> set stack) - visited), length stack))")
  show "wf (inv_image (less_than <*lex*> less_than)
         (\<lambda>(g, visited, stack, island).
            (card ((all_neighbours g \<union> set stack) - visited), length stack)))"
    by (intro wf_inv_image wf_lex_prod wf_less_than)
next
  fix g :: Graph and visited :: "string set" and stack island :: "string list"
  assume ne: "stack \<noteq> []" and vis: "last stack \<in> visited"
  have fin: "finite ((all_neighbours g \<union> set stack) - visited)"
    by (auto simp: all_neighbours_def fmran'_alt_def split: option.splits)
  have "(all_neighbours g \<union> set (butlast stack)) - visited
          \<subseteq> (all_neighbours g \<union> set stack) - visited"
    by (auto dest: in_set_butlastD)
  then have "card ((all_neighbours g \<union> set (butlast stack)) - visited)
          \<le> card ((all_neighbours g \<union> set stack) - visited)"
    using fin by (rule card_mono[rotated])
  moreover have "length (butlast stack) < length stack"
    using ne by simp
  ultimately show "((g, visited, butlast stack, island), (g, visited, stack, island))
      \<in> inv_image (less_than <*lex*> less_than)
         (\<lambda>(g, visited, stack, island).
            (card ((all_neighbours g \<union> set stack) - visited), length stack))"
    by auto
next
  fix g :: Graph and visited :: "string set" and stack island :: "string list"
  assume ne: "stack \<noteq> []" and vis: "last stack \<notin> visited"
  let ?v = "last stack"
  let ?push = "filter (\<lambda>nei. nei \<notin> insert ?v visited) (neighbours g ?v)"
  have fin: "finite ((all_neighbours g \<union> set stack) - visited)"
    by (auto simp: all_neighbours_def fmran'_alt_def split: option.splits)
  have nb: "set (neighbours g ?v) \<subseteq> all_neighbours g"
  proof (cases "Edges g")
    case None
    then show ?thesis by (simp add: neighbours_def)
  next
    case m: (Some m)
    show ?thesis
    proof (cases "fmlookup m ?v")
      case None
      with m show ?thesis by (simp add: neighbours_def adj_def)
    next
      case (Some ns)
      then have "ns \<in> fmran' m" by (rule fmran'I)
      with m Some show ?thesis
        by (auto simp: neighbours_def adj_def all_neighbours_def)
    qed
  qed
  have "?v \<in> (all_neighbours g \<union> set stack) - visited"
    using ne vis by simp
  moreover have "?v \<notin> (all_neighbours g \<union> set (butlast stack @ ?push)) - insert ?v visited"
    by simp
  moreover have "(all_neighbours g \<union> set (butlast stack @ ?push)) - insert ?v visited
          \<subseteq> (all_neighbours g \<union> set stack) - visited"
    using nb by (auto dest: in_set_butlastD)
  ultimately have "(all_neighbours g \<union> set (butlast stack @ ?push)) - insert ?v visited
          \<subset> (all_neighbours g \<union> set stack) - visited"
    by blast
  then have "card ((all_neighbours g \<union> set (butlast stack @ ?push)) - insert ?v visited)
          < card ((all_neighbours g \<union> set stack) - visited)"
    using fin by (rule psubset_card_mono[rotated])
  then show "((g, insert ?v visited, butlast stack @ ?push, island @ [?v]),
              (g, visited, stack, island))
      \<in> inv_image (less_than <*lex*> less_than)
         (\<lambda>(g, visited, stack, island).
            (card ((all_neighbours g \<union> set stack) - visited), length stack))"
    by simp
qed

declare dfs.simps [simp del]

text \<open>\<^verbatim>\<open>for _, node := range island { nodeToIsland[node] = idx }\<close>\<close>

definition index_island :: "nat \<Rightarrow> string list \<Rightarrow> (string, nat) fmap \<Rightarrow> (string, nat) fmap" where
  "index_island idx island n2i = fold (\<lambda>node m. fmupd node idx m) island n2i"

text \<open>The outer loop over \<^verbatim>\<open>g.Nodes\<close>, with the three variables it updates.\<close>

fun islands_loop ::
  "Graph \<Rightarrow> string list \<Rightarrow> string set \<Rightarrow> string list list \<Rightarrow> (string, nat) fmap
     \<Rightarrow> string list list \<times> (string, nat) fmap"
where
  "islands_loop g [] visited acc n2i = (acc, n2i)"
| "islands_loop g (n # ns) visited acc n2i =
     (if n \<in> visited then islands_loop g ns visited acc n2i
      else case dfs g visited [n] [] of
             (visited', island) \<Rightarrow>
               islands_loop g ns visited' (acc @ [island]) (index_island (length acc) island n2i))"

definition computeIslands :: "Graph \<Rightarrow> string list list \<times> (string, nat) fmap" where
  "computeIslands g = islands_loop g (Nodes g) {} [] fmempty"

text \<open>The invariant of the outer loop: the components found so far partition the visited set,
  and the index maps each of their nodes to its position.\<close>

definition part_inv :: "string set \<Rightarrow> string list list \<Rightarrow> (string, nat) fmap \<Rightarrow> bool" where
  "part_inv V acc n2i \<longleftrightarrow>
     V = set (concat acc) \<and> distinct (concat acc) \<and>
     (\<forall>k i. fmlookup n2i k = Some i \<longleftrightarrow> i < length acc \<and> k \<in> set (acc ! i))"

section \<open>Grid state, aggregation and the update step\<close>

text \<open>
  A \<^verbatim>\<open>float64\<close> value is modelled by a real number: rounding, infinities and NaN are
  left out, so addition is exact.
\<close>

record IslandMeasurement =
  Island :: "string list"
  Total :: real

record Grid =
  graph :: Graph
  islands :: "string list list"
  nodeToIsland :: "(string, nat) fmap"
  measurements :: "(string, real) fmap"

definition NewGrid :: Grid where
  "NewGrid = \<lparr>graph = \<lparr>Nodes = [], Edges = Some fmempty\<rparr>, islands = [],
              nodeToIsland = fmempty, measurements = fmempty\<rparr>"

text \<open>
  The first loop of \<^verbatim>\<open>aggregate\<close> over the entries of the measurement map, given as a list.
  \<^verbatim>\<open>totals[idx] += val\<close> panics when \<open>idx\<close> is out of range: the result \<open>None\<close>.
\<close>

fun add_totals :: "(string, nat) fmap \<Rightarrow> (string \<times> real) list \<Rightarrow> real list \<Rightarrow> real list option" where
  "add_totals n2i [] totals = Some totals"
| "add_totals n2i ((node, val) # rest) totals =
     (case fmlookup n2i node of
        None \<Rightarrow> add_totals n2i rest totals
      | Some idx \<Rightarrow>
          if idx < length totals
          then add_totals n2i rest (totals[idx := totals ! idx + val])
          else None)"

definition aggregate_in :: "(string \<times> real) list \<Rightarrow> Grid \<Rightarrow> IslandMeasurement list option" where
  "aggregate_in entries s =
     (case add_totals (nodeToIsland s) entries (replicate (length (islands s)) 0) of
        None \<Rightarrow> None
      | Some totals \<Rightarrow>
          Some (map (\<lambda>i. \<lparr>Island = islands s ! i, Total = totals ! i\<rparr>) [0..<length (islands s)]))"

text \<open>
  Go leaves the order in which \<^verbatim>\<open>range\<close> visits a map unspecified. The model visits the
  entries in the order of their keys; lemma \<open>aggregate_in_any_order\<close> below shows that
  every other enumeration of the map gives the same result.
\<close>

definition aggregate :: "Grid \<Rightarrow> IslandMeasurement list option" where
  "aggregate s = aggregate_in (sorted_list_of_fmap (measurements s)) s"

text \<open>
  Events. A reply channel is a name (a number), absent when the Go field is nil. The
  handlers create every reply channel with a buffer of one, so a send never blocks; the
  step returns the message it sends, if any. \<^verbatim>\<open>Event\<close> is \<^verbatim>\<open>any\<close> in Go: a value of another
  type matches no case of the type switch.
\<close>

type_synonym chan = nat

datatype Reply = IslandsReply "string list list" | TotalsReply "IslandMeasurement list"

datatype Event =
    GraphUpdate Graph "chan option"
  | MeasurementUpdate string real "chan option"
  | OtherEvent

definition send_reply :: "chan option \<Rightarrow> Reply \<Rightarrow> (chan \<times> Reply) option" where
  "send_reply reply r = (case reply of None \<Rightarrow> None | Some c \<Rightarrow> Some (c, r))"

text \<open>\<^verbatim>\<open>Grid.update\<close>: the new state and the message sent; \<open>None\<close> when \<^verbatim>\<open>aggregate\<close> panics.\<close>

fun update :: "Grid \<Rightarrow> Event \<Rightarrow> (Grid \<times> (chan \<times> Reply) option) option" where
  "update s (GraphUpdate g reply) =
     (case computeIslands g of
        (comps, n2i) \<Rightarrow>
          Some (s\<lparr>graph := g, islands := comps, nodeToIsland := n2i\<rparr>,
                send_reply reply (IslandsReply comps)))"
| "update s (MeasurementUpdate node val reply) =
     (case aggregate (if HasNode (graph s) node
                      then s\<lparr>measurements := fmupd node val (measurements s)\<rparr> else s) of
        None \<Rightarrow> None
      | Some totals \<Rightarrow>
          Some (if HasNode (graph s) node
                then s\<lparr>measurements := fmupd node val (measurements s)\<rparr> else s,
                send_reply reply (TotalsReply totals)))"
| "update s OtherEvent = Some (s, None)"

text \<open>The state invariant that keeps \<^verbatim>\<open>totals[idx]\<close> in range.\<close>

definition grid_inv :: "Grid \<Rightarrow> bool" where
  "grid_inv s \<longleftrightarrow> (\<forall>idx \<in> fmran' (nodeToIsland s). idx < length (islands s))"

text \<open>The topology, the partition and the index of a state, the three fields a topology
  update assigns.\<close>

definition topology_of :: "Grid \<Rightarrow> Graph \<times> string list list \<times> (string, nat) fmap" where
  "topology_of s = (graph s, islands s, nodeToIsland s)"

section \<open>The engine loop (Grid.Loop)\<close>

text \<open>
  Each round of the loop is one \<^verbatim>\<open>select\<close>: the context is done, or a receive from the
  event channel, which yields an event or reports the channel closed (\<open>None\<close>). The loop
  is run on the sequence of these outcomes, in the order in which the channel delivers;
  when the sequence is used up the loop is waiting in \<^verbatim>\<open>select\<close>. The result is the state
  reached and the messages sent on reply channels, in order; \<open>None\<close> is a panic.
\<close>

datatype selected = CtxDone | Received "Event option"

fun Loop :: "Grid \<Rightarrow> selected list \<Rightarrow> (Grid \<times> (chan \<times> Reply) list) option" where
  "Loop s [] = Some (s, [])"
| "Loop s (CtxDone # rest) = Some (s, [])"
| "Loop s (Received None # rest) = Some (s, [])"
| "Loop s (Received (Some e) # rest) =
     (case update s e of
        None \<Rightarrow> None
      | Some (s1, out) \<Rightarrow>
          (case Loop s1 rest of
             None \<Rightarrow> None
           | Some (s2, outs) \<Rightarrow> Some (s2, (case out of None \<Rightarrow> [] | Some m \<Rightarrow> [m]) @ outs)))"

section \<open>Submission: the select statements of the two handlers (package api)\<close>

text \<open>
  Time is counted in nanoseconds from the moment the handler reaches its \<^verbatim>\<open>select\<close>, as
  \<^verbatim>\<open>time.Duration\<close> does. A case of a \<^verbatim>\<open>select\<close> is given by the time from which it can
  proceed, \<open>None\<close> when it never can. \<^verbatim>\<open>select\<close> blocks until some case can proceed and
  then runs one of the cases that can: \<open>select_cases\<close> lists the cases that may run,
  each with the time at which it does. The empty list means that \<^verbatim>\<open>select\<close> blocks forever.
\<close>

definition Millisecond :: nat where
  "Millisecond = 1000000"

definition backpressureTimeout :: nat where
  "backpressureTimeout = 20 * Millisecond"

definition ready_cases :: "(nat option \<times> 'a) list \<Rightarrow> (nat \<times> 'a) list" where
  "ready_cases cases =
     concat (map (\<lambda>(w, a). case w of None \<Rightarrow> [] | Some t \<Rightarrow> [(t, a)]) cases)"

definition select_cases :: "(nat option \<times> 'a) list \<Rightarrow> (nat \<times> 'a) list" where
  "select_cases cases =
     filter (\<lambda>(t, a). list_all (\<lambda>(u, b). t \<le> u) (ready_cases cases)) (ready_cases cases)"

datatype status = StatusOK | StatusRequestTimeout | StatusTooManyRequests

datatype enqueue = Enqueued | TimedOut | ContextDone

text \<open>
  The environment of a submission: \<open>slot\<close>, from when the send on the event channel can
  proceed; \<open>answer\<close>, from when the reply is in the reply channel; \<open>cancelled\<close>, from when
  the request's context is done.
\<close>

text \<open>The inner \<^verbatim>\<open>select\<close>, reached at time \<open>t\<close>: the reply, or the context is done.\<close>

definition await_reply :: "nat \<Rightarrow> nat option \<Rightarrow> nat option \<Rightarrow> (nat \<times> status) list" where
  "await_reply t answer cancelled =
     select_cases [(map_option (max t) answer, StatusOK),
                   (map_option (max t) cancelled, StatusRequestTimeout)]"

text \<open>The outer \<^verbatim>\<open>select\<close> of \<^verbatim>\<open>graphHandler\<close>: the send, or the context is done.\<close>

definition graph_enqueue :: "nat option \<Rightarrow> nat option \<Rightarrow> (nat \<times> enqueue) list" where
  "graph_enqueue slot cancelled = select_cases [(slot, Enqueued), (cancelled, ContextDone)]"

text \<open>The outer \<^verbatim>\<open>select\<close> of \<^verbatim>\<open>measurementsHandler\<close>: the send,
  \<^verbatim>\<open>time.After(backpressureTimeout)\<close>, or the context is done.\<close>

definition measurements_enqueue :: "nat option \<Rightarrow> nat option \<Rightarrow> (nat \<times> enqueue) list" where
  "measurements_enqueue slot cancelled =
     select_cases [(slot, Enqueued), (Some backpressureTimeout, TimedOut),
                   (cancelled, ContextDone)]"

definition after_enqueue :: "nat option \<Rightarrow> nat option \<Rightarrow> nat \<times> enqueue \<Rightarrow> (nat \<times> status) list" where
  "after_enqueue answer cancelled r =
     (case r of
        (t, Enqueued) \<Rightarrow> await_reply t answer cancelled
      | (t, TimedOut) \<Rightarrow> [(t, StatusTooManyRequests)]
      | (t, ContextDone) \<Rightarrow> [(t, StatusRequestTimeout)])"

definition graphHandler :: "nat option \<Rightarrow> nat option \<Rightarrow> nat option \<Rightarrow> (nat \<times> status) list" where
  "graphHandler slot answer cancelled =
     concat (map (after_enqueue answer cancelled) (graph_enqueue slot cancelled))"

definition measurementsHandler :: "nat option \<Rightarrow> nat option \<Rightarrow> nat option \<Rightarrow> (nat \<times> status) list" where
  "measurementsHandler slot answer cancelled =
     concat (map (after_enqueue answer cancelled) (measurements_enqueue slot cancelled))"

subsection \<open>The builder as the specification words it\<close>

text \<open>
  An input edge is kept when it names exactly two endpoints and both are declared;
  every kept edge (A, B) adds B to the neighbours of A and A to those of B, in input order.
\<close>

definition edge_kept :: "string list \<Rightarrow> string list \<Rightarrow> bool" where
  "edge_kept nodes edge \<longleftrightarrow> length edge = 2 \<and> edge ! 0 \<in> set nodes \<and> edge ! 1 \<in> set nodes"

definition edge_adds :: "string \<Rightarrow> string list \<Rightarrow> string list" where
  "edge_adds v edge =
     (if edge ! 0 = v then [edge ! 1] else []) @ (if edge ! 1 = v then [edge ! 0] else [])"

definition neighbours_spec :: "string list \<Rightarrow> string list list \<Rightarrow> string \<Rightarrow> string list" where
  "neighbours_spec nodes edges v = concat (map (edge_adds v) (filter (edge_kept nodes) edges))"

section \<open>Facts about the builder\<close>

lemma nodeSet_of_acc: "fold insert nodes A = set nodes \<union> A"
  by (induction nodes arbitrary: A) auto

lemma nodeSet_of_set: "nodeSet_of nodes = set nodes"
  by (simp add: nodeSet_of_def nodeSet_of_acc)

lemma init_edges_acc:
  "fmlookup (fold (\<lambda>n m. fmupd n [] m) nodes m0) v =
     (if v \<in> set nodes then Some [] else fmlookup m0 v)"
  by (induction nodes arbitrary: m0) auto

lemma init_edges_lookup:
  "fmlookup (init_edges nodes) v = (if v \<in> set nodes then Some [] else None)"
  by (simp add: init_edges_def init_edges_acc)

lemma add_edges_lookup_outside:
  "v \<notin> S \<Longrightarrow> fmlookup (add_edges S edges m) v = fmlookup m v"
  by (induction S edges m rule: add_edges.induct) auto

lemma add_edges_keeps_keys:
  "fmlookup m v \<noteq> None \<Longrightarrow> fmlookup (add_edges S edges m) v \<noteq> None"
  by (induction S edges m rule: add_edges.induct) auto

lemma adj_two_updates:
  "adj (fmupd b (adj (fmupd a (adj m a @ [b]) m) b @ [a]) (fmupd a (adj m a @ [b]) m)) v =
     adj m v @ (if a = v then [b] else []) @ (if b = v then [a] else [])"
  by (auto simp: adj_def)

lemma add_edges_adj:
  "adj (add_edges (set nodes) edges m) v = adj m v @ neighbours_spec nodes edges v"
proof (induction "set nodes" edges m rule: add_edges.induct)
  case (1 m)
  show ?case by (simp add: neighbours_spec_def)
next
  case (2 edge rest m)
  show ?case
  proof (cases "edge_kept nodes edge")
    case False
    with 2 show ?thesis
      by (auto simp: neighbours_spec_def edge_kept_def)
  next
    case True
    then have k: "length edge = 2" "edge ! 0 \<in> set nodes" "edge ! 1 \<in> set nodes"
      by (simp_all add: edge_kept_def)
    from 2(4) k True show ?thesis
      by (simp add: adj_two_updates neighbours_spec_def edge_adds_def)
  qed
qed

lemma add_edges_filter:
  "add_edges (set nodes) (filter (edge_kept nodes) edges) m = add_edges (set nodes) edges m"
  by (induction "set nodes" edges m rule: add_edges.induct) (auto simp: edge_kept_def)

lemma NewGraph_lookup:
  "Edges (NewGraph nodes edges) = Some m \<Longrightarrow>
   fmlookup m v = (if v \<in> set nodes then Some (neighbours_spec nodes edges v) else None)"
proof -
  assume e: "Edges (NewGraph nodes edges) = Some m"
  then have m: "m = add_edges (set nodes) edges (init_edges nodes)"
    by (simp add: NewGraph_def nodeSet_of_set)
  show ?thesis
  proof (cases "v \<in> set nodes")
    case False
    then show ?thesis
      by (simp add: m add_edges_lookup_outside init_edges_lookup)
  next
    case True
    then have "fmlookup m v \<noteq> None"
      unfolding m by (intro add_edges_keeps_keys) (simp add: init_edges_lookup)
    then obtain ns where ns: "fmlookup m v = Some ns" by blast
    then have "ns = adj m v" by (simp add: adj_def)
    also have "\<dots> = adj (init_edges nodes) v @ neighbours_spec nodes edges v"
      unfolding m by (rule add_edges_adj)
    also have "\<dots> = neighbours_spec nodes edges v"
      using True by (simp add: adj_def init_edges_lookup)
    finally show ?thesis using True ns by simp
  qed
qed

section \<open>Facts about the component finder\<close>

lemma NewGraph_Edges:
  "Edges (NewGraph nodes edges) = Some (add_edges (set nodes) edges (init_edges nodes))"
  by (simp add: NewGraph_def nodeSet_of_set)

lemma neighbours_spec_subset: "set (neighbours_spec nodes edges v) \<subseteq> set nodes"
  by (auto simp: neighbours_spec_def edge_adds_def edge_kept_def split: if_splits)

lemma all_neighbours_NewGraph: "all_neighbours (NewGraph nodes edges) \<subseteq> set nodes"
proof
  fix x
  assume "x \<in> all_neighbours (NewGraph nodes edges)"
  then obtain ns where ns: "ns \<in> fmran' (add_edges (set nodes) edges (init_edges nodes))"
    and x: "x \<in> set ns"
    by (auto simp: all_neighbours_def NewGraph_Edges)
  from ns obtain v where "fmlookup (add_edges (set nodes) edges (init_edges nodes)) v = Some ns"
    by (auto simp: fmlookup_ran'_iff)
  then have "ns = neighbours_spec nodes edges v"
    using NewGraph_lookup[OF NewGraph_Edges, of nodes edges v] by (simp split: if_splits)
  with x show "x \<in> set nodes"
    using neighbours_spec_subset by blast
qed

lemma neighbours_subset: "set (neighbours g v) \<subseteq> all_neighbours g"
proof (cases "Edges g")
  case None
  then show ?thesis by (simp add: neighbours_def)
next
  case m: (Some m)
  show ?thesis
  proof (cases "fmlookup m v")
    case None
    with m show ?thesis by (simp add: neighbours_def adj_def)
  next
    case (Some ns)
    then have "ns \<in> fmran' m" by (rule fmran'I)
    with m Some show ?thesis
      by (auto simp: neighbours_def adj_def all_neighbours_def)
  qed
qed

lemma dfs_result:
  "dfs g V stack isl0 = (V', isl') \<Longrightarrow>
   \<exists>new. isl' = isl0 @ new \<and> V' = V \<union> set new \<and> distinct new \<and> set new \<inter> V = {} \<and>
         set new \<subseteq> set stack \<union> all_neighbours g"
proof (induction g V stack isl0 arbitrary: V' isl' rule: dfs.induct)
  case (1 g visited stack island)
  show ?case
  proof (cases "stack = []")
    case True
    with 1(3) show ?thesis by (simp add: dfs.simps)
  next
    case ne: False
    show ?thesis
    proof (cases "last stack \<in> visited")
      case True
      with ne 1(3) have "dfs g visited (butlast stack) island = (V', isl')"
        by (simp add: dfs.simps[of g visited stack])
      from 1(1)[OF ne True this] show ?thesis
        by (auto dest: in_set_butlastD)
    next
      case False
      let ?v = "last stack"
      let ?push = "filter (\<lambda>nei. nei \<notin> insert ?v visited) (neighbours g ?v)"
      from ne False 1(3)
      have "dfs g (insert ?v visited) (butlast stack @ ?push) (island @ [?v]) = (V', isl')"
        by (simp add: dfs.simps[of g visited stack])
      from 1(2)[OF ne False this] obtain new where
        new: "isl' = (island @ [?v]) @ new" "V' = insert ?v visited \<union> set new" "distinct new"
             "set new \<inter> insert ?v visited = {}"
             "set new \<subseteq> set (butlast stack @ ?push) \<union> all_neighbours g"
        by blast
      have nb: "set (neighbours g ?v) \<subseteq> all_neighbours g"
        by (rule neighbours_subset)
      have v: "?v \<in> set stack" using ne by simp
      have "isl' = island @ (?v # new)" using new(1) by simp
      moreover have "V' = visited \<union> set (?v # new)" using new(2) by auto
      moreover have "distinct (?v # new)" using new(3,4) by auto
      moreover have "set (?v # new) \<inter> visited = {}" using new(4) False by auto
      moreover have "set (?v # new) \<subseteq> set stack \<union> all_neighbours g"
        using new(5) nb v by (auto dest: in_set_butlastD)
      ultimately show ?thesis by blast
    qed
  qed
qed

lemma dfs_start:
  assumes "n \<notin> V" and "dfs g V [n] [] = (V', island)"
  shows "n \<in> set island \<and> V' = V \<union> set island \<and> distinct island \<and> set island \<inter> V = {} \<and>
         set island \<subseteq> insert n (all_neighbours g)"
proof -
  from assms have
    "dfs g (insert n V) (filter (\<lambda>nei. nei \<notin> insert n V) (neighbours g n)) [n] = (V', island)"
    by (simp add: dfs.simps[of g V "[n]"])
  then have "\<exists>new. island = [n] @ new" using dfs_result by blast
  then have "n \<in> set island" by auto
  moreover from dfs_result[OF assms(2)] have
    "V' = V \<union> set island \<and> distinct island \<and> set island \<inter> V = {} \<and>
     set island \<subseteq> insert n (all_neighbours g)"
    by auto
  ultimately show ?thesis by blast
qed

lemma index_island_lookup:
  "fmlookup (index_island i xs m) k = (if k \<in> set xs then Some i else fmlookup m k)"
  unfolding index_island_def by (induction xs arbitrary: m) auto

lemma part_inv_step:
  assumes inv: "part_inv V acc n2i"
    and d: "distinct island" and disj: "set island \<inter> V = {}"
  shows "part_inv (V \<union> set island) (acc @ [island]) (index_island (length acc) island n2i)"
proof -
  from inv have V: "V = set (concat acc)" and dc: "distinct (concat acc)"
    and lk: "\<And>k i. fmlookup n2i k = Some i \<longleftrightarrow> i < length acc \<and> k \<in> set (acc ! i)"
    by (simp_all add: part_inv_def)
  have old: "k \<notin> set island" if "i < length acc" "k \<in> set (acc ! i)" for k i
  proof -
    from that have "acc ! i \<in> set acc" by simp
    with that have "k \<in> set (concat acc)" by auto
    with V disj show ?thesis by auto
  qed
  have "fmlookup (index_island (length acc) island n2i) k = Some i \<longleftrightarrow>
          i < length (acc @ [island]) \<and> k \<in> set ((acc @ [island]) ! i)" for k i
  proof (cases "k \<in> set island")
    case True
    then show ?thesis
      using old[of i k] by (auto simp: index_island_lookup nth_append)
  next
    case False
    then show ?thesis
      by (auto simp: index_island_lookup nth_append lk)
  qed
  moreover have "V \<union> set island = set (concat (acc @ [island]))" using V by auto
  moreover have "distinct (concat (acc @ [island]))" using dc d disj V by auto
  ultimately show ?thesis unfolding part_inv_def by blast
qed

lemma islands_loop_inv:
  "part_inv V acc n2i \<Longrightarrow> islands_loop g ns V acc n2i = (comps, idx) \<Longrightarrow>
   \<exists>V'. part_inv V' comps idx \<and> V \<union> set ns \<subseteq> V' \<and> V' \<subseteq> V \<union> set ns \<union> all_neighbours g"
proof (induction ns arbitrary: V acc n2i)
  case Nil
  then show ?case by auto
next
  case (Cons n ns)
  show ?case
  proof (cases "n \<in> V")
    case True
    with Cons.prems have "islands_loop g ns V acc n2i = (comps, idx)" by simp
    from Cons.IH[OF Cons.prems(1) this] True show ?thesis by auto
  next
    case False
    obtain V1 island where r: "dfs g V [n] [] = (V1, island)" by (cases "dfs g V [n] []")
    from dfs_start[OF False r] have p: "n \<in> set island" "V1 = V \<union> set island"
      "distinct island" "set island \<inter> V = {}" "set island \<subseteq> insert n (all_neighbours g)"
      by auto
    have inv1: "part_inv V1 (acc @ [island]) (index_island (length acc) island n2i)"
      unfolding p(2) by (rule part_inv_step[OF Cons.prems(1) p(3) p(4)])
    from Cons.prems(2) False r
    have "islands_loop g ns V1 (acc @ [island]) (index_island (length acc) island n2i) = (comps, idx)"
      by simp
    from Cons.IH[OF inv1 this] obtain V' where
      "part_inv V' comps idx" "V1 \<union> set ns \<subseteq> V'" "V' \<subseteq> V1 \<union> set ns \<union> all_neighbours g"
      by blast
    with p show ?thesis by (intro exI[of _ V']) auto
  qed
qed

lemma computeIslands_inv:
  assumes "computeIslands g = (comps, idx)"
  shows "distinct (concat comps)"
    and "\<And>k i. fmlookup idx k = Some i \<longleftrightarrow> i < length comps \<and> k \<in> set (comps ! i)"
    and "set (Nodes g) \<subseteq> set (concat comps)"
    and "set (concat comps) \<subseteq> set (Nodes g) \<union> all_neighbours g"
proof -
  have "part_inv {} [] fmempty" by (simp add: part_inv_def)
  from islands_loop_inv[OF this assms[unfolded computeIslands_def]]
  obtain V' where "part_inv V' comps idx" "set (Nodes g) \<subseteq> V'"
    "V' \<subseteq> set (Nodes g) \<union> all_neighbours g" by auto
  then show "distinct (concat comps)"
    and "\<And>k i. fmlookup idx k = Some i \<longleftrightarrow> i < length comps \<and> k \<in> set (comps ! i)"
    and "set (Nodes g) \<subseteq> set (concat comps)"
    and "set (concat comps) \<subseteq> set (Nodes g) \<union> all_neighbours g"
    by (auto simp: part_inv_def)
qed

section \<open>Facts about aggregation\<close>

lemma add_totals_ok:
  assumes "\<forall>i \<in> fmran' n2i. i < length totals"
  shows "\<exists>t. add_totals n2i kvs totals = Some t \<and> length t = length totals \<and>
            (\<forall>i < length totals. t ! i = totals ! i +
                sum_list (map snd (filter (\<lambda>kv. fmlookup n2i (fst kv) = Some i) kvs)))"
  using assms
proof (induction kvs arbitrary: totals)
  case Nil
  show ?case by simp
next
  case (Cons kv kvs)
  obtain node val where kv: "kv = (node, val)" by (cases kv)
  show ?case
  proof (cases "fmlookup n2i node")
    case None
    with Cons.IH[OF Cons.prems] kv show ?thesis by simp
  next
    case (Some idx)
    then have "idx \<in> fmran' n2i" by (rule fmran'I)
    with Cons.prems have lt: "idx < length totals" by blast
    let ?t = "totals[idx := totals ! idx + val]"
    have "\<forall>i\<in>fmran' n2i. i < length ?t" using Cons.prems by simp
    from Cons.IH[OF this] obtain t where t: "add_totals n2i kvs ?t = Some t"
      "length t = length ?t"
      "\<forall>i<length ?t. t ! i = ?t ! i +
          sum_list (map snd (filter (\<lambda>kv. fmlookup n2i (fst kv) = Some i) kvs))"
      by blast
    show ?thesis using Some lt t kv by (auto simp: nth_list_update)
  qed
qed

lemma entries_sum:
  assumes d: "distinct (map fst kvs)"
  shows "sum_list (map snd (filter (\<lambda>kv. P (fst kv)) kvs)) =
         (\<Sum>k \<in> {k \<in> fst ` set kvs. P k}. the (map_of kvs k))"
proof -
  let ?ys = "filter (\<lambda>kv. P (fst kv)) kvs"
  have dy: "distinct (map fst ?ys)" using d by (simp add: distinct_map_filter)
  have "map snd ?ys = map (\<lambda>k. the (map_of kvs k)) (map fst ?ys)"
    using d by (auto simp: map_eq_conv)
  then have "sum_list (map snd ?ys) = sum_list (map (\<lambda>k. the (map_of kvs k)) (map fst ?ys))"
    by (rule arg_cong)
  also have "\<dots> = (\<Sum>k \<in> set (map fst ?ys). the (map_of kvs k))"
    using dy by (rule sum_list_distinct_conv_sum_set)
  also have "set (map fst ?ys) = {k \<in> fst ` set kvs. P k}" by auto
  finally show ?thesis .
qed

lemma sorted_list_of_fmap_keys:
  "distinct (map fst (sorted_list_of_fmap m))"
  by (simp add: sorted_list_of_fmap_def comp_def sorted_list_of_fset.rep_eq)

lemma aggregate_in_char:
  assumes inv: "grid_inv s" and d: "distinct (map fst entries)"
    and m: "map_of entries = fmlookup (measurements s)"
  shows "aggregate_in entries s =
     Some (map (\<lambda>i. \<lparr>Island = islands s ! i,
                     Total = (\<Sum>k \<in> {k \<in> fmdom' (measurements s).
                                      fmlookup (nodeToIsland s) k = Some i}.
                                the (fmlookup (measurements s) k))\<rparr>)
            [0..<length (islands s)])"
proof -
  let ?n = "length (islands s)"
  have "\<forall>i \<in> fmran' (nodeToIsland s). i < length (replicate ?n (0::real))"
    using inv by (simp add: grid_inv_def)
  from add_totals_ok[OF this, of entries] obtain t where
    t: "add_totals (nodeToIsland s) entries (replicate ?n 0) = Some t" "length t = ?n"
       "\<forall>i < ?n. t ! i = sum_list (map snd (filter (\<lambda>kv. fmlookup (nodeToIsland s) (fst kv) = Some i) entries))"
    by auto
  have keys: "fst ` set entries = fmdom' (measurements s)"
    using m by (metis dom_map_of_conv_image_fst fmdom'.rep_eq)
  have "t ! i = (\<Sum>k \<in> {k \<in> fmdom' (measurements s). fmlookup (nodeToIsland s) k = Some i}.
                  the (fmlookup (measurements s) k))" if "i < ?n" for i
    using t(3) that entries_sum[OF d, of "\<lambda>k. fmlookup (nodeToIsland s) k = Some i"]
    by (simp add: keys m)
  then show ?thesis
    using t(1) by (simp add: aggregate_in_def)
qed

lemma aggregate_char:
  assumes inv: "grid_inv s"
  shows "aggregate s =
     Some (map (\<lambda>i. \<lparr>Island = islands s ! i,
                     Total = (\<Sum>k \<in> {k \<in> fmdom' (measurements s).
                                      fmlookup (nodeToIsland s) k = Some i}.
                                the (fmlookup (measurements s) k))\<rparr>)
            [0..<length (islands s)])"
  unfolding aggregate_def
  by (rule aggregate_in_char[OF inv sorted_list_of_fmap_keys]) simp

lemma aggregate_in_any_order:
  "grid_inv s \<Longrightarrow> distinct (map fst entries) \<Longrightarrow> map_of entries = fmlookup (measurements s) \<Longrightarrow>
   aggregate_in entries s = aggregate s"
  by (simp add: aggregate_in_char aggregate_char)

lemma computeIslands_grid_inv:
  "computeIslands g = (islands s, nodeToIsland s) \<Longrightarrow> grid_inv s"
  unfolding grid_inv_def
  using computeIslands_inv(2)[of g "islands s" "nodeToIsland s"]
  by (auto simp: fmlookup_ran'_iff)

section \<open>Claims about the topology model and the component finder\<close>

text \<open>
  Claim C8. For a topology built by \<^verbatim>\<open>NewGraph\<close> from a node list and an edge list,
  \<^verbatim>\<open>HasNode\<close> answers true for an identifier exactly when the identifier occurs in the
  declared node list; an identifier that occurs only as an endpoint of an edge is not a node.
\<close>

theorem HasNode_iff_declared:
  "HasNode (NewGraph nodes edges) node \<longleftrightarrow> node \<in> set nodes"
  using NewGraph_lookup[OF NewGraph_Edges, of nodes edges node]
  by (simp add: HasNode_def NewGraph_Edges)

theorem HasNode_iff_declared_witness:
  "HasNode (NewGraph [''A''] [[''A'', ''X''], [''X'', ''A'']]) ''A'' \<and>
   \<not> HasNode (NewGraph [''A''] [[''A'', ''X''], [''X'', ''A'']]) ''X''"
  using HasNode_iff_declared[of "[''A'']" "[[''A'', ''X''], [''X'', ''A'']]" "''A''"]
        HasNode_iff_declared[of "[''A'']" "[[''A'', ''X''], [''X'', ''A'']]" "''X''"]
  by simp

text \<open>
  Claim C4. \<^verbatim>\<open>NewGraph\<close> has no failing path and returns, for every node list and every raw
  edge list: the node list as given; an adjacency map with an entry for exactly the declared
  nodes, also for those without neighbours; as the neighbours of a node, what the kept edges
  add in input order, where an edge is kept when it has exactly two endpoints and both are
  declared, and a kept edge (A, B) adds B to A and A to B. Dropping the other edges from the
  input beforehand changes nothing.
\<close>

theorem NewGraph_builds:
  "Nodes (NewGraph nodes edges) = nodes \<and>
   (\<exists>m. Edges (NewGraph nodes edges) = Some m \<and>
        (\<forall>v. fmlookup m v =
              (if v \<in> set nodes then Some (neighbours_spec nodes edges v) else None))) \<and>
   NewGraph nodes (filter (edge_kept nodes) edges) = NewGraph nodes edges"
proof (intro conjI)
  show "Nodes (NewGraph nodes edges) = nodes" by (simp add: NewGraph_def)
  show "\<exists>m. Edges (NewGraph nodes edges) = Some m \<and>
        (\<forall>v. fmlookup m v =
              (if v \<in> set nodes then Some (neighbours_spec nodes edges v) else None))"
    using NewGraph_lookup[OF NewGraph_Edges] NewGraph_Edges by blast
  show "NewGraph nodes (filter (edge_kept nodes) edges) = NewGraph nodes edges"
    by (simp add: NewGraph_def nodeSet_of_set add_edges_filter)
qed

theorem NewGraph_builds_witness:
  "\<exists>m. Edges (NewGraph [''A'', ''B'', ''C'']
              [[''A''], [''A'', ''B''], [''B'', ''X''], [''C'', ''B''], [''A'', ''B'', ''C'']]) = Some m \<and>
       fmlookup m ''A'' = Some [''B''] \<and> fmlookup m ''B'' = Some [''A'', ''C''] \<and>
       fmlookup m ''C'' = Some [''B''] \<and> fmlookup m ''X'' = None"
proof -
  let ?ns = "[''A'', ''B'', ''C'']"
  let ?es = "[[''A''], [''A'', ''B''], [''B'', ''X''], [''C'', ''B''], [''A'', ''B'', ''C'']]"
  have a: "neighbours_spec ?ns ?es ''A'' = [''B'']"
    by code_simp
  have b: "neighbours_spec ?ns ?es ''B'' = [''A'', ''C'']"
    by code_simp
  have c: "neighbours_spec ?ns ?es ''C'' = [''B'']"
    by code_simp
  from NewGraph_builds[of ?ns ?es]
  obtain m where m: "Edges (NewGraph ?ns ?es) = Some m"
    and l: "\<And>v. fmlookup m v =
                (if v \<in> set ?ns then Some (neighbours_spec ?ns ?es v) else None)"
    by blast
  have "fmlookup m ''A'' = Some [''B'']" using l[of "''A''"] a by simp
  moreover have "fmlookup m ''B'' = Some [''A'', ''C'']" using l[of "''B''"] b by simp
  moreover have "fmlookup m ''C'' = Some [''B'']" using l[of "''C''"] c by simp
  moreover have "fmlookup m ''X'' = None" using l[of "''X''"] by simp
  ultimately show ?thesis using m by blast
qed

text \<open>
  Claim C3. For a topology built by \<^verbatim>\<open>NewGraph\<close>, the partition that \<^verbatim>\<open>computeIslands\<close>
  returns is complete: the nodes of the components are exactly the declared nodes, no node
  occurs twice in the concatenation of the components (so neither in two components nor
  twice in one), every declared node lies in exactly one component, and the index maps a
  node to a position exactly when the component at that position contains the node.
\<close>

theorem computeIslands_partition:
  "computeIslands (NewGraph nodes edges) = (comps, idx) \<Longrightarrow>
     set (concat comps) = set nodes \<and> distinct (concat comps) \<and>
     (\<forall>n \<in> set nodes. \<exists>!i. i < length comps \<and> n \<in> set (comps ! i)) \<and>
     (\<forall>n i. fmlookup idx n = Some i \<longleftrightarrow> i < length comps \<and> n \<in> set (comps ! i))"
proof -
  assume r: "computeIslands (NewGraph nodes edges) = (comps, idx)"
  note inv = computeIslands_inv[OF r]
  have N: "Nodes (NewGraph nodes edges) = nodes" by (simp add: NewGraph_def)
  have c: "set (concat comps) = set nodes"
    using inv(3,4) all_neighbours_NewGraph[of nodes edges] unfolding N by blast
  have l: "\<forall>n i. fmlookup idx n = Some i \<longleftrightarrow> i < length comps \<and> n \<in> set (comps ! i)"
    using inv(2) by blast
  have "\<forall>n \<in> set nodes. \<exists>!i. i < length comps \<and> n \<in> set (comps ! i)"
  proof
    fix n assume "n \<in> set nodes"
    with c have "n \<in> set (concat comps)" by simp
    then obtain ys where "ys \<in> set comps" "n \<in> set ys" by auto
    then obtain i where i: "i < length comps" "n \<in> set (comps ! i)"
      by (auto simp: in_set_conv_nth)
    show "\<exists>!i. i < length comps \<and> n \<in> set (comps ! i)"
    proof (rule ex1I[of _ i])
      show "i < length comps \<and> n \<in> set (comps ! i)" using i by simp
    next
      fix j assume "j < length comps \<and> n \<in> set (comps ! j)"
      then have "fmlookup idx n = Some j" using l by blast
      moreover have "fmlookup idx n = Some i" using l i by blast
      ultimately show "j = i" by simp
    qed
  qed
  with c inv(1) l show ?thesis by blast
qed

theorem computeIslands_partition_witness:
  "computeIslands (NewGraph [''A'', ''B'', ''C'', ''D''] [[''A'', ''B''], [''C'', ''D'']]) =
     ([[''A'', ''B''], [''C'', ''D'']],
      fmap_of_list [(''A'', 0), (''B'', 0), (''C'', 1), (''D'', 1)]) \<and>
   set (concat [[''A'', ''B''], [''C'', ''D'']]) = set [''A'', ''B'', ''C'', ''D''] \<and>
   distinct (concat [[''A'', ''B''], [''C'', ''D'']]) \<and>
   (\<exists>!i. i < length [[''A'', ''B''], [''C'', ''D'']] \<and>
          ''C'' \<in> set ([[''A'', ''B''], [''C'', ''D'']] ! i)) \<and>
   (\<forall>n i. fmlookup (fmap_of_list [(''A'', 0), (''B'', 0), (''C'', 1), (''D'', 1)]) n = Some i \<longleftrightarrow>
      i < length [[''A'', ''B''], [''C'', ''D'']] \<and> n \<in> set ([[''A'', ''B''], [''C'', ''D'']] ! i))"
proof -
  have h: "computeIslands (NewGraph [''A'', ''B'', ''C'', ''D''] [[''A'', ''B''], [''C'', ''D'']]) =
     ([[''A'', ''B''], [''C'', ''D'']],
      fmap_of_list [(''A'', 0), (''B'', 0), (''C'', 1), (''D'', 1)])"
    by code_simp
  have c: "''C'' \<in> set [''A'', ''B'', ''C'', ''D'']" by simp
  from computeIslands_partition[OF h] have
    p: "set (concat [[''A'', ''B''], [''C'', ''D'']]) = set [''A'', ''B'', ''C'', ''D'']"
       "distinct (concat [[''A'', ''B''], [''C'', ''D'']])"
       "\<forall>n \<in> set [''A'', ''B'', ''C'', ''D''].
          \<exists>!i. i < length [[''A'', ''B''], [''C'', ''D'']] \<and> n \<in> set ([[''A'', ''B''], [''C'', ''D'']] ! i)"
       "\<forall>n i. fmlookup (fmap_of_list [(''A'', 0), (''B'', 0), (''C'', 1), (''D'', 1)]) n = Some i \<longleftrightarrow>
          i < length [[''A'', ''B''], [''C'', ''D'']] \<and> n \<in> set ([[''A'', ''B''], [''C'', ''D'']] ! i)"
    by blast+
  from p(3) c have
    "\<exists>!i. i < length [[''A'', ''B''], [''C'', ''D'']] \<and> ''C'' \<in> set ([[''A'', ''B''], [''C'', ''D'']] ! i)"
    by (rule bspec)
  with h p(1,2,4) show ?thesis by (intro conjI)
qed

end
